theory Spec2Isabelle
  imports Main "HOL-Library.Sublist" "HOL-Library.Word"
begin

section \<open>The think/answer splitter of the chat client (Chat.tsx)\<close>

subsection \<open>JavaScript strings\<close>

text \<open>
  A JavaScript string is a sequence of UTF-16 code units; \<open>trim\<close>, \<open>includes\<close>,
  \<open>replace\<close> and the regular expression (which has no \<open>u\<close> flag) all work on code
  units. \<open>js\<close> writes a literal of Latin-1 characters as its code units.
\<close>

type_synonym code_unit = "16 word"
type_synonym jsstring = "code_unit list"

definition js :: "string \<Rightarrow> jsstring" where
  "js s = map of_char s"

text \<open>
  \<open>String.prototype.trim\<close> removes WhiteSpace and LineTerminator code points from both
  ends: TAB, LF, VT, FF, CR, SP, NBSP, the other Space_Separator code points, LS, PS
  and the byte order mark.
\<close>

definition is_ws :: "code_unit \<Rightarrow> bool" where
  "is_ws c = (c \<in> set [0x0009, 0x000A, 0x000B, 0x000C, 0x000D, 0x0020, 0x00A0, 0x1680,
     0x2000, 0x2001, 0x2002, 0x2003, 0x2004, 0x2005, 0x2006, 0x2007, 0x2008, 0x2009, 0x200A,
     0x2028, 0x2029, 0x202F, 0x205F, 0x3000, 0xFEFF])"

definition trim :: "jsstring \<Rightarrow> jsstring" where
  "trim s = rev (dropWhile is_ws (rev (dropWhile is_ws s)))"

text \<open>
  \<open>s.includes(pat)\<close>: does \<open>pat\<close> occur in \<open>s\<close> at some index. The name \<open>includes\<close> is
  reserved in Isabelle, hence \<open>str_includes\<close>.
\<close>

fun str_includes :: "jsstring \<Rightarrow> jsstring \<Rightarrow> bool" where
  "str_includes [] pat = prefix pat []"
| "str_includes (x # xs) pat = (prefix pat (x # xs) \<or> str_includes xs pat)"

text \<open>
  \<open>s.replace(pat, '')\<close> with a string pattern: the first occurrence of \<open>pat\<close> is
  removed, a string without \<open>pat\<close> is returned as it is.
\<close>

fun replace_first :: "jsstring \<Rightarrow> jsstring \<Rightarrow> jsstring" where
  "replace_first [] pat = []"
| "replace_first (x # xs) pat =
     (if prefix pat (x # xs) then drop (length pat) (x # xs) else x # replace_first xs pat)"

subsection \<open>The regular expression \<^verbatim>\<open>/<think>([^]*?)<\/think>/\<close>\<close>

definition think_open :: jsstring where
  "think_open = js ''<think>''"

definition think_close :: jsstring where
  "think_close = js ''</think>''"

text \<open>
  \<open>lazy_until close s\<close> is the tail of the pattern, \<^verbatim>\<open>([^]*?)\<close> followed by the
  literal \<open>close\<close>, run at the start of \<open>s\<close>: the lazy quantifier first tries to take
  nothing, and takes one more code unit (any code unit, \<^verbatim>\<open>[^]\<close>) each time the literal
  does not follow. The result is the captured group and the text after the literal.
\<close>

fun lazy_until :: "jsstring \<Rightarrow> jsstring \<Rightarrow> (jsstring \<times> jsstring) option" where
  "lazy_until close [] = (if prefix close [] then Some ([], []) else None)"
| "lazy_until close (x # xs) =
     (if prefix close (x # xs) then Some ([], drop (length close) (x # xs))
      else map_option (\<lambda>(g, r). (x # g, r)) (lazy_until close xs))"

text \<open>One attempt of the whole pattern at the start of \<open>s\<close>.\<close>

definition match_here :: "jsstring \<Rightarrow> (jsstring \<times> jsstring) option" where
  "match_here s =
     (if prefix think_open s then lazy_until think_close (drop (length think_open) s)
      else None)"

text \<open>
  The search of \<open>content.match(thinkRegex)\<close>: the pattern is tried at index 0, 1, ... and the
  first index where it matches wins. The result is the text before the match, capture group
  1 and the text after the match; \<open>None\<close> is JavaScript's \<open>null\<close>.
\<close>

fun regex_exec :: "jsstring \<Rightarrow> (jsstring \<times> jsstring \<times> jsstring) option" where
  "regex_exec [] = map_option (\<lambda>(g, r). ([], g, r)) (match_here [])"
| "regex_exec (x # xs) =
     (case match_here (x # xs) of
        Some (g, r) \<Rightarrow> Some ([], g, r)
      | None \<Rightarrow> map_option (\<lambda>(b, g, r). (x # b, g, r)) (regex_exec xs))"

text \<open>\<open>content.replace(thinkRegex, '')\<close>: the regex has no \<open>g\<close> flag, so the first match
  is cut out; without a match the string is unchanged.\<close>

definition replace_regex :: "jsstring \<Rightarrow> jsstring" where
  "replace_regex s = (case regex_exec s of None \<Rightarrow> s | Some (b, g, r) \<Rightarrow> b @ r)"

subsection \<open>The completed-message parser\<close>

text \<open>
  \<open>parseMessage\<close> returns an object whose \<open>thinking\<close> field is absent when the regex
  does not match. The fields are named \<open>p_thinking\<close> and \<open>p_content\<close> to keep them apart
  from the fields of the streaming state.
\<close>

record ParsedMessage =
  p_thinking :: "jsstring option"
  p_content :: jsstring

definition parseMessage :: "jsstring \<Rightarrow> ParsedMessage" where
  "parseMessage content' =
     (case regex_exec content' of
        Some (b, g, r) \<Rightarrow> \<lparr>p_thinking = Some (trim g), p_content = trim (replace_regex content')\<rparr>
      | None \<Rightarrow> \<lparr>p_thinking = None, p_content = trim content'\<rparr>)"

text \<open>
  A completed message is drawn with \<^verbatim>\<open>{parsedContent.thinking && (<details ...>)}\<close>: the panel
  appears when the field is present and not the empty string.
\<close>

definition thinking_panel_shown :: "ParsedMessage \<Rightarrow> bool" where
  "thinking_panel_shown p = (case p_thinking p of None \<Rightarrow> False | Some t \<Rightarrow> t \<noteq> [])"

subsection \<open>The streaming state and the parse step\<close>

record StreamingState =
  thinking :: jsstring
  content :: jsstring
  isThinking :: bool

text \<open>The value given to \<open>useState\<close>, and the value \<open>onFinish\<close> stores.\<close>

definition initial_state :: StreamingState where
  "initial_state = \<lparr>thinking = [], content = [], isThinking = True\<rparr>"

text \<open>
  The body of the streaming effect once the last message is known to be the assistant's:
  \<open>st\<close> is the streaming state of the render the effect belongs to (both what
  \<open>streamingState.isThinking\<close> reads and what the updater receives as \<open>prev\<close>), \<open>buf\<close> is
  \<open>lastMessage.content\<close>. The timing reference \<open>thinkingStartTime\<close> is written only and
  never read into the streaming state, so it is left out.
\<close>

definition parse_step :: "StreamingState \<Rightarrow> jsstring \<Rightarrow> StreamingState" where
  "parse_step st buf =
     (case regex_exec buf of
        Some (b, g, r) \<Rightarrow>
          \<lparr>thinking = trim g, content = trim (replace_regex buf), isThinking = False\<rparr>
      | None \<Rightarrow>
          if str_includes buf think_open then
            \<lparr>thinking = trim (replace_first buf think_open), content = [], isThinking = True\<rparr>
          else if isThinking st then st\<lparr>thinking := trim buf\<rparr>
          else st\<lparr>content := trim buf\<rparr>)"

subsection \<open>Messages and the two handlers of the component\<close>

text \<open>
  Modelled from the spec: the \<open>Message\<close> type comes from the chat library and is not
  part of the repository; the specification gives a message a role, one of user, assistant
  and system, and a content string. The component reads no other field.
\<close>

datatype role = User | Assistant | System

text \<open>A message of the transcript; \<open>m_content\<close> is its \<open>content\<close> field.\<close>

record Message =
  m_role :: role
  m_content :: jsstring

text \<open>
  The first test of the render loop: the last message, when it is the assistant's, is drawn
  from the streaming state as long as that state holds some text; every other assistant
  message is drawn from \<open>parseMessage\<close>.
\<close>

definition streaming_view :: "StreamingState \<Rightarrow> Message \<Rightarrow> bool \<Rightarrow> bool" where
  "streaming_view st message isLastMessage \<longleftrightarrow>
     m_role message = Assistant \<and> isLastMessage \<and> (thinking st \<noteq> [] \<or> content st \<noteq> [])"

text \<open>
  The streaming effect, run when \<open>messages\<close> has changed: nothing happens on an empty
  transcript or when the last message is not the assistant's.
\<close>

definition streaming_effect :: "StreamingState \<Rightarrow> Message list \<Rightarrow> StreamingState" where
  "streaming_effect st messages =
     (if messages = [] then st
      else let lastMessage = last messages in
        if m_role lastMessage \<noteq> Assistant then st
        else parse_step st (m_content lastMessage))"

text \<open>The \<open>onFinish\<close> callback given to \<open>useChat\<close>.\<close>

definition onFinish :: "StreamingState \<Rightarrow> StreamingState" where
  "onFinish st = \<lparr>thinking = [], content = [], isThinking = True\<rparr>"

text \<open>
  The component's streaming state changes in these two places only, so its history is a
  fold over the events the chat library delivers, in order.
\<close>

datatype event = MessagesChanged "Message list" | Finished

fun handle :: "StreamingState \<Rightarrow> event \<Rightarrow> StreamingState" where
  "handle st (MessagesChanged messages) = streaming_effect st messages"
| "handle st Finished = onFinish st"

definition run_events :: "event list \<Rightarrow> StreamingState" where
  "run_events evs = foldl handle initial_state evs"

text \<open>
  The states produced by the parse step on the successive buffers of one assistant
  message, the first evaluation starting from \<open>st\<close>.
\<close>

fun run_steps :: "StreamingState \<Rightarrow> jsstring list \<Rightarrow> StreamingState list" where
  "run_steps st [] = []"
| "run_steps st (buf # bufs) = parse_step st buf # run_steps (parse_step st buf) bufs"

subsection \<open>The vocabulary of the specification\<close>

text \<open>
  \<open>first_at pat s b r\<close>: the first occurrence of \<open>pat\<close> in \<open>s\<close> has \<open>b\<close> before it and
  \<open>r\<close> after it (no occurrence starts at an index inside \<open>b\<close>).
\<close>

definition first_at :: "jsstring \<Rightarrow> jsstring \<Rightarrow> jsstring \<Rightarrow> jsstring \<Rightarrow> bool" where
  "first_at pat s b r \<longleftrightarrow> s = b @ pat @ r \<and> (\<forall>k<length b. \<not> prefix pat (drop k s))"

text \<open>The buffer holds an opening tag with a closing tag somewhere after it.\<close>

definition contains_pair :: "jsstring \<Rightarrow> bool" where
  "contains_pair s \<longleftrightarrow> (\<exists>a g r. s = a @ think_open @ g @ think_close @ r)"

text \<open>
  \<open>first_pair s a g r\<close>: the first pair of \<open>s\<close> is the first opening tag and the first
  closing tag after it; \<open>a\<close> is the text before the pair, \<open>g\<close> the text strictly between
  the tags and \<open>r\<close> the text after the pair.
\<close>

definition first_pair :: "jsstring \<Rightarrow> jsstring \<Rightarrow> jsstring \<Rightarrow> jsstring \<Rightarrow> bool" where
  "first_pair s a g r \<longleftrightarrow>
     first_at think_open s a (g @ think_close @ r) \<and>
     first_at think_close (g @ think_close @ r) g r"

text \<open>Cumulative buffers: each is an initial part of every later one.\<close>

definition cumulative :: "jsstring list \<Rightarrow> bool" where
  "cumulative bufs \<longleftrightarrow> (\<forall>j<length bufs. \<forall>i<j. prefix (bufs ! i) (bufs ! j))"

text \<open>An event that is a change of \<open>messages\<close> whose last message is not the assistant's.\<close>

fun no_assistant_update :: "event \<Rightarrow> bool" where
  "no_assistant_update (MessagesChanged messages) =
     (messages = [] \<or> m_role (last messages) \<noteq> Assistant)"
| "no_assistant_update Finished = False"

section \<open>Properties\<close>

subsection \<open>Scanning for a literal\<close>

lemma first_atI:
  "s = b @ pat @ r \<Longrightarrow> (\<And>k. k < length b \<Longrightarrow> \<not> prefix pat (drop k s)) \<Longrightarrow> first_at pat s b r"
  unfolding first_at_def by blast

lemma first_at_eq: "first_at pat s b r \<Longrightarrow> s = b @ pat @ r"
  unfolding first_at_def by blast

lemma first_at_no_earlier: "first_at pat s b r \<Longrightarrow> k < length b \<Longrightarrow> \<not> prefix pat (drop k s)"
  unfolding first_at_def by blast

lemma lazy_until_SomeD:
  "lazy_until pat s = Some (b, r) \<Longrightarrow> first_at pat s b r"
proof (induction s arbitrary: b)
  case Nil
  then show ?case by (auto simp: first_at_def split: if_splits)
next
  case (Cons x xs)
  show ?case
  proof (cases "prefix pat (x # xs)")
    case True
    with Cons.prems have b: "b = []" and r: "r = drop (length pat) (x # xs)" by auto
    from True have "x # xs = pat @ drop (length pat) (x # xs)"
      by (metis append_eq_conv_conj prefix_def)
    with b r show ?thesis by (intro first_atI) simp_all
  next
    case False
    with Cons.prems obtain b0 where l: "lazy_until pat xs = Some (b0, r)" and b: "b = x # b0"
      by auto
    note ih = Cons.IH [OF l]
    show ?thesis
    proof (rule first_atI)
      show "x # xs = b @ pat @ r" using first_at_eq [OF ih] b by simp
    next
      fix k assume k: "k < length b"
      show "\<not> prefix pat (drop k (x # xs))"
      proof (cases k)
        case 0
        with False show ?thesis by simp
      next
        case (Suc k')
        with k b have "k' < length b0" by simp
        from first_at_no_earlier [OF ih this] Suc show ?thesis by simp
      qed
    qed
  qed
qed

lemma first_at_lazy_until:
  "first_at pat s b r \<Longrightarrow> lazy_until pat s = Some (b, r)"
proof (induction b arbitrary: s)
  case Nil
  then have s: "s = pat @ r" by (simp add: first_at_def)
  then have p: "prefix pat s" and d: "drop (length pat) s = r" by simp_all
  show ?case
  proof (cases s)
    case Nil
    with s show ?thesis by simp
  next
    case (Cons y ys)
    with p d show ?thesis by simp
  qed
next
  case (Cons x b0)
  have s: "s = x # (b0 @ pat @ r)" using first_at_eq [OF Cons.prems] by simp
  have n0: "\<not> prefix pat s" using first_at_no_earlier [OF Cons.prems, of 0] by simp
  have "first_at pat (b0 @ pat @ r) b0 r"
  proof (rule first_atI)
    fix k assume "k < length b0"
    then have "\<not> prefix pat (drop (Suc k) s)"
      using first_at_no_earlier [OF Cons.prems, of "Suc k"] by simp
    then show "\<not> prefix pat (drop k (b0 @ pat @ r))" unfolding s by simp
  qed simp
  from Cons.IH [OF this] have "lazy_until pat (b0 @ pat @ r) = Some (b0, r)" .
  with n0 show ?case unfolding s by simp
qed

lemma lazy_until_None: "lazy_until pat s = None \<longleftrightarrow> \<not> sublist pat s"
  by (induction s) (auto simp: sublist_Cons_right)

lemma str_includes_sublist: "str_includes s pat \<longleftrightarrow> sublist pat s"
  by (induction s) (auto simp: sublist_Cons_right)

lemma replace_first_lazy_until:
  "replace_first s pat = (case lazy_until pat s of None \<Rightarrow> s | Some (b, r) \<Rightarrow> b @ r)"
  by (induction s) (auto split: option.splits)

lemma first_at_minimal:
  assumes "first_at pat s b r" and "s = b' @ pat @ r'"
  shows "length b \<le> length b'"
proof (rule ccontr)
  assume "\<not> length b \<le> length b'"
  then have "\<not> prefix pat (drop (length b') s)"
    using first_at_no_earlier [OF assms(1), of "length b'"] by simp
  then show False unfolding assms(2) by simp
qed

lemma first_at_unique:
  assumes "first_at pat s b r" and "first_at pat s b' r'"
  shows "b = b' \<and> r = r'"
proof -
  have "length b \<le> length b'" "length b' \<le> length b"
    using first_at_minimal [OF assms(1) first_at_eq [OF assms(2)]]
      first_at_minimal [OF assms(2) first_at_eq [OF assms(1)]] by simp_all
  then have "length b = length b'" by simp
  moreover have "b @ pat @ r = b' @ pat @ r'"
    using first_at_eq [OF assms(1)] first_at_eq [OF assms(2)] by simp
  ultimately show ?thesis by simp
qed

lemma first_at_append:
  assumes "first_at pat s b r"
  shows "first_at pat (s @ t) b (r @ t)"
proof (rule first_atI)
  show "s @ t = b @ pat @ r @ t" using first_at_eq [OF assms] by simp
next
  fix k assume k: "k < length b"
  have s: "s = b @ pat @ r" by (rule first_at_eq [OF assms])
  have n: "\<not> prefix pat (drop k s)" by (rule first_at_no_earlier [OF assms k])
  have "length s = length b + length pat + length r" unfolding s by simp
  then have l: "length pat \<le> length (drop k s)" and "k \<le> length s" using k by simp_all
  then have d: "drop k (s @ t) = drop k s @ t" by simp
  show "\<not> prefix pat (drop k (s @ t))"
  proof
    assume "prefix pat (drop k (s @ t))"
    then have "prefix pat (drop k s @ t)" by (simp only: d)
    with l have "prefix pat (drop k s)" by (auto simp: prefix_append)
    with n show False ..
  qed
qed

lemma sublist_first_at:
  assumes "sublist pat s"
  shows "\<exists>b r. first_at pat s b r"
proof -
  from assms have "lazy_until pat s \<noteq> None" by (simp add: lazy_until_None)
  then obtain b r where "lazy_until pat s = Some (b, r)" by auto
  then show ?thesis using lazy_until_SomeD by blast
qed

subsection \<open>The regular expression finds the first pair\<close>

lemma think_open_simps: "think_open = [60, 116, 104, 105, 110, 107, 62]" "length think_open = 7"
  by (simp_all add: think_open_def js_def)
lemma think_close_simps: "think_close = [60, 47, 116, 104, 105, 110, 107, 62]" "length think_close = 8"
  by (simp_all add: think_close_def js_def)

lemma drop_append_short: "n \<le> length u \<Longrightarrow> drop n (u @ v) = drop n u @ v"
  by simp

lemma regex_exec_lazy:
  "regex_exec s =
     (case lazy_until think_open s of
        None \<Rightarrow> None
      | Some (b, rest) \<Rightarrow> map_option (\<lambda>(g, r). (b, g, r)) (lazy_until think_close rest))"
proof (induction s)
  case Nil
  show ?case by (simp add: match_here_def think_open_simps)
next
  case (Cons x xs)
  show ?case
  proof (cases "prefix think_open (x # xs)")
    case True
    then have lo: "lazy_until think_open (x # xs) = Some ([], drop (length think_open) (x # xs))"
      by simp
    show ?thesis
    proof (cases "lazy_until think_close (drop (length think_open) (x # xs))")
      case (Some gr)
      with True lo show ?thesis by (cases gr) (simp add: match_here_def)
    next
      case None
      then have nc: "\<not> sublist think_close (drop (length think_open) (x # xs))"
        by (simp add: lazy_until_None)
      have "regex_exec xs = None"
      proof (cases "lazy_until think_open xs")
        case None
        then show ?thesis by (simp add: Cons.IH)
      next
        case (Some br)
        obtain b rest where br: "br = (b, rest)" by (cases br)
        from Some br have xs: "xs = b @ think_open @ rest"
          using first_at_eq [OF lazy_until_SomeD] by blast
        have "drop (length think_open) ((x # b @ think_open) @ rest) =
            drop (length think_open) (x # b @ think_open) @ rest"
          by (rule drop_append_short) simp
        then have "drop (length think_open) (x # xs) = drop (length think_open) (x # b @ think_open) @ rest"
          unfolding xs by simp
        with nc have "\<not> sublist think_close rest"
          by (simp add: sublist_append)
        then have "lazy_until think_close rest = None" by (simp add: lazy_until_None)
        with Some br show ?thesis by (simp add: Cons.IH)
      qed
      with True lo None show ?thesis by (simp add: match_here_def)
    qed
  next
    case False
    then show ?thesis
      by (cases "lazy_until think_open xs") (auto simp: match_here_def Cons.IH option.map_comp comp_def)
  qed
qed

lemma first_pair_regex_exec: "first_pair s a g r \<longleftrightarrow> regex_exec s = Some (a, g, r)"
proof
  assume "first_pair s a g r"
  then have "lazy_until think_open s = Some (a, g @ think_close @ r)"
    and "lazy_until think_close (g @ think_close @ r) = Some (g, r)"
    by (simp_all add: first_pair_def first_at_lazy_until)
  then show "regex_exec s = Some (a, g, r)"
    by (simp add: regex_exec_lazy)
next
  assume "regex_exec s = Some (a, g, r)"
  then obtain rest where "lazy_until think_open s = Some (a, rest)" "lazy_until think_close rest = Some (g, r)"
    by (auto simp: regex_exec_lazy split: option.splits)
  moreover from this have "rest = g @ think_close @ r" using first_at_eq [OF lazy_until_SomeD] by blast
  ultimately show "first_pair s a g r"
    using lazy_until_SomeD by (simp add: first_pair_def)
qed

lemma contains_pair_first_pair: "contains_pair s \<longleftrightarrow> (\<exists>a g r. first_pair s a g r)"
proof
  assume "\<exists>a g r. first_pair s a g r"
  then show "contains_pair s"
    unfolding first_pair_def contains_pair_def using first_at_eq by metis
next
  assume "contains_pair s"
  then obtain a' g' r' where s: "s = a' @ think_open @ g' @ think_close @ r'"
    unfolding contains_pair_def by blast
  then have "sublist think_open s" by simp
  then obtain a rest where fa: "first_at think_open s a rest" using sublist_first_at by blast
  have le: "length a \<le> length a'" by (rule first_at_minimal [OF fa s])
  have "s = a @ think_open @ rest" by (rule first_at_eq [OF fa])
  with s have "a' @ think_open @ g' @ think_close @ r' = a @ think_open @ rest" by simp
  then have e: "a' @ think_open @ g' @ think_close @ r' = a @ think_open @ rest" .
  have "take (length a) (a' @ think_open @ g' @ think_close @ r') = take (length a) a'"
    using le by simp
  with e have "a = take (length a) a'" by simp
  then have "a' = a @ drop (length a) a'" by (metis append_take_drop_id)
  then obtain w where "a' = a @ w" ..
  with e have "think_open @ rest = w @ think_open @ g' @ think_close @ r'" by simp
  then have "drop (length think_open) (think_open @ rest) =
      drop (length think_open) ((w @ think_open) @ g' @ think_close @ r')" by simp
  also have "\<dots> = drop (length think_open) (w @ think_open) @ g' @ think_close @ r'"
    by (rule drop_append_short) simp
  finally have "\<exists>u. rest = u @ think_close @ r'" by simp
  then have "sublist think_close rest" by auto
  then obtain g r where fc: "first_at think_close rest g r" using sublist_first_at by blast
  from first_at_eq [OF fc] fa fc have "first_pair s a g r" by (simp add: first_pair_def)
  then show "\<exists>a g r. first_pair s a g r" by blast
qed

lemma contains_pair_regex_exec: "contains_pair s \<longleftrightarrow> regex_exec s \<noteq> None"
  by (auto simp: contains_pair_first_pair first_pair_regex_exec)

lemma first_at_rest:
  assumes "first_at pat s b r" and "s = b' @ pat @ r'"
  shows "\<exists>u. r = u @ r'"
proof -
  have le: "length b \<le> length b'" by (rule first_at_minimal [OF assms])
  have e: "b' @ pat @ r' = b @ pat @ r" using first_at_eq [OF assms(1)] assms(2) by simp
  have "take (length b) (b' @ pat @ r') = take (length b) b'" using le by simp
  with e have "b = take (length b) b'" by simp
  then have "b' = b @ drop (length b) b'" by (metis append_take_drop_id)
  then obtain w where "b' = b @ w" ..
  with e have "pat @ r = w @ pat @ r'" by simp
  then have "drop (length pat) (pat @ r) = drop (length pat) ((w @ pat) @ r')" by simp
  also have "\<dots> = drop (length pat) (w @ pat) @ r'" by (rule drop_append_short) simp
  finally show ?thesis by simp
qed

lemma first_pair_append:
  assumes "first_pair b a g r"
  shows "first_pair (b @ t) a g (r @ t)"
proof -
  from assms have o: "first_at think_open b a (g @ think_close @ r)"
    and c: "first_at think_close (g @ think_close @ r) g r" by (simp_all add: first_pair_def)
  from first_at_append [OF o, of t] first_at_append [OF c, of t]
  show ?thesis by (simp add: first_pair_def)
qed

lemma parse_step_first_pair:
  assumes "first_pair s a g r"
  shows "parse_step st s = \<lparr>thinking = trim g, content = trim (a @ r), isThinking = False\<rparr>"
proof -
  from assms have "regex_exec s = Some (a, g, r)" by (simp add: first_pair_regex_exec)
  then show ?thesis by (simp add: parse_step_def replace_regex_def)
qed

lemma parseMessage_first_pair:
  assumes "first_pair s a g r"
  shows "parseMessage s = \<lparr>p_thinking = Some (trim g), p_content = trim (a @ r)\<rparr>"
proof -
  from assms have "regex_exec s = Some (a, g, r)" by (simp add: first_pair_regex_exec)
  then show ?thesis by (simp add: parseMessage_def replace_regex_def)
qed

lemma parse_step_no_pair:
  assumes "\<not> contains_pair s"
  shows "parse_step st s =
    (if sublist think_open s
     then \<lparr>thinking = trim (replace_first s think_open), content = [], isThinking = True\<rparr>
     else if isThinking st then st\<lparr>thinking := trim s\<rparr> else st\<lparr>content := trim s\<rparr>)"
proof -
  from assms have "regex_exec s = None" using contains_pair_regex_exec [of s] by blast
  then show ?thesis by (simp add: parse_step_def str_includes_sublist)
qed

lemma contains_pair_sublist_open: "contains_pair s \<Longrightarrow> sublist think_open s"
  unfolding contains_pair_def by auto

lemma contains_pair_sublist_close: "contains_pair s \<Longrightarrow> sublist think_close s"
  unfolding contains_pair_def by (metis append.assoc sublist_appendI)

lemma contains_pair_prefix:
  assumes "contains_pair b" and "prefix b b'"
  shows "contains_pair b'"
proof -
  from assms(2) obtain t where "b' = b @ t" by (auto simp: prefix_def)
  with assms(1) show ?thesis unfolding contains_pair_def by (metis append.assoc)
qed

subsection \<open>Trimming\<close>

lemma dropWhile_keeps:
  assumes "m \<noteq> []" and "\<not> P (hd m)"
  shows "\<exists>p'. dropWhile P (p @ m @ q) = p' @ m @ q"
proof (induction p)
  case Nil
  from assms have "dropWhile P (m @ q) = m @ q" by (cases m) simp_all
  then show ?case by (metis append_Nil)
next
  case (Cons x p)
  then show ?case by (cases "P x") (auto intro: exI [of _ "x # p"])
qed

lemma sublist_trim:
  assumes "sublist m s" and "m \<noteq> []" and "\<not> is_ws (hd m)" and "\<not> is_ws (last m)"
  shows "sublist m (trim s)"
proof -
  from assms(1) obtain p q where "s = p @ m @ q" by (auto simp: sublist_def)
  then obtain p' where 1: "dropWhile is_ws s = p' @ m @ q"
    using dropWhile_keeps [of m is_ws p q] assms(2,3) by blast
  have "rev m \<noteq> []" "\<not> is_ws (hd (rev m))" using assms(2,4) by (simp_all add: hd_rev)
  with dropWhile_keeps [of "rev m" is_ws "rev q" "rev p'"]
  obtain q' where "dropWhile is_ws (rev q @ rev m @ rev p') = q' @ rev m @ rev p'" by blast
  with 1 have "trim s = p' @ m @ rev q'" by (simp add: trim_def)
  then show ?thesis by simp
qed

lemma trim_ws_prefix:
  assumes "list_all is_ws a"
  shows "trim (a @ r) = trim r"
proof -
  from assms have "dropWhile is_ws (a @ r) = dropWhile is_ws r"
    by (induction a) simp_all
  then show ?thesis by (simp add: trim_def)
qed

lemma tag_ends:
  "think_open \<noteq> []" "\<not> is_ws (hd think_open)" "\<not> is_ws (last think_open)"
  "think_close \<noteq> []" "\<not> is_ws (hd think_close)" "\<not> is_ws (last think_close)"
  by (simp_all add: think_open_simps think_close_simps is_ws_def)

subsection \<open>The four cases of the parse step\<close>

text \<open>
  C1: a buffer that holds an opening tag and a closing tag after it has a first pair, and
  the parse step returns the trimmed text between the tags of the first pair as \<open>thinking\<close>,
  the trimmed buffer without the pair and its interior as \<open>content\<close>, and
  \<open>isThinking = false\<close>.
\<close>

theorem parse_step_both_tags:
  assumes "contains_pair s"
  shows "(\<exists>a g r. first_pair s a g r) \<and>
    (\<forall>a g r. first_pair s a g r \<longrightarrow>
       parse_step st s = \<lparr>thinking = trim g, content = trim (a @ r), isThinking = False\<rparr>)"
  using assms by (simp add: contains_pair_first_pair parse_step_first_pair)

theorem parse_step_both_tags_witness:
  "contains_pair (js ''<think>step one</think>Final answer.'') \<and>
   first_pair (js ''<think>step one</think>Final answer.'') [] (js ''step one'') (js ''Final answer.'') \<and>
   parse_step initial_state (js ''<think>step one</think>Final answer.'') =
     \<lparr>thinking = js ''step one'', content = js ''Final answer.'', isThinking = False\<rparr>"
proof -
  let ?s = "js ''<think>step one</think>Final answer.''"
  have "?s = [] @ think_open @ js ''step one'' @ think_close @ js ''Final answer.''"
    by (simp add: js_def think_open_def think_close_def)
  then have c: "contains_pair ?s" unfolding contains_pair_def by blast
  have f: "first_pair ?s [] (js ''step one'') (js ''Final answer.'')" by code_simp
  have t: "trim (js ''step one'') = js ''step one''"
    "trim ([] @ js ''Final answer.'') = js ''Final answer.''" by code_simp+
  from parse_step_both_tags [OF c, of initial_state] f t
  have "parse_step initial_state ?s =
     \<lparr>thinking = js ''step one'', content = js ''Final answer.'', isThinking = False\<rparr>"
    by simp
  with c f show ?thesis by simp
qed

text \<open>
  C3: without an opening tag in the buffer and with \<open>isThinking\<close> true before, the step
  stores the whole trimmed buffer as \<open>thinking\<close> and \<open>isThinking\<close> stays true.
\<close>

theorem parse_step_no_tag_thinking:
  assumes "\<not> sublist think_open s" and "isThinking st"
  shows "parse_step st s = st\<lparr>thinking := trim s\<rparr> \<and>
    thinking (parse_step st s) = trim s \<and> isThinking (parse_step st s)"
proof -
  from assms(1) have "\<not> contains_pair s" using contains_pair_sublist_open by blast
  with assms show ?thesis by (simp add: parse_step_no_pair)
qed

theorem parse_step_no_tag_thinking_witness:
  "\<not> sublist think_open (js '' Let me see '') \<and> isThinking initial_state \<and>
   parse_step initial_state (js '' Let me see '') =
     \<lparr>thinking = js ''Let me see'', content = [], isThinking = True\<rparr>"
proof -
  have h1: "\<not> sublist think_open (js '' Let me see '')" by code_simp
  have h2: "isThinking initial_state" by (simp add: initial_state_def)
  have t: "trim (js '' Let me see '') = js ''Let me see''" by code_simp
  from parse_step_no_tag_thinking [OF h1 h2] t h1 h2 show ?thesis
    by (simp add: initial_state_def)
qed

text \<open>
  C4: without an opening tag in the buffer and with \<open>isThinking\<close> false before, the step
  stores the whole trimmed buffer as \<open>content\<close> and leaves \<open>thinking\<close> and \<open>isThinking\<close>
  as they were.
\<close>

theorem parse_step_no_tag_content:
  assumes "\<not> sublist think_open s" and "\<not> isThinking st"
  shows "parse_step st s = st\<lparr>content := trim s\<rparr> \<and>
    content (parse_step st s) = trim s \<and>
    thinking (parse_step st s) = thinking st \<and>
    isThinking (parse_step st s) = isThinking st"
proof -
  from assms(1) have "\<not> contains_pair s" using contains_pair_sublist_open by blast
  with assms show ?thesis by (simp add: parse_step_no_pair)
qed

theorem parse_step_no_tag_content_witness:
  "\<not> sublist think_open (js ''Hello! '') \<and>
   \<not> isThinking \<lparr>thinking = js ''plan'', content = js ''Hel'', isThinking = False\<rparr> \<and>
   parse_step \<lparr>thinking = js ''plan'', content = js ''Hel'', isThinking = False\<rparr> (js ''Hello! '') =
     \<lparr>thinking = js ''plan'', content = js ''Hello!'', isThinking = False\<rparr>"
proof -
  have h1: "\<not> sublist think_open (js ''Hello! '')" by code_simp
  have h2: "\<not> isThinking \<lparr>thinking = js ''plan'', content = js ''Hel'', isThinking = False\<rparr>"
    by simp
  have t: "trim (js ''Hello! '') = js ''Hello!''" by code_simp
  from parse_step_no_tag_content [OF h1 h2] t h1 show ?thesis by simp
qed

text \<open>
  C7: the parse step is idempotent: a second evaluation on the same buffer, from the state
  the first one produced, changes nothing.
\<close>

theorem parse_step_idempotent:
  "parse_step (parse_step st buf) buf = parse_step st buf"
proof (cases "regex_exec buf")
  case (Some m)
  then show ?thesis by (cases m) (simp add: parse_step_def)
next
  case None
  then show ?thesis by (simp add: parse_step_def)
qed

text \<open>
  C2 (as amended): when the buffer holds an opening tag and no closing tag, the step
  returns as \<open>thinking\<close> the trimmed buffer with its first opening tag cut out, that is
  the text before the tag followed by the text after it, \<open>content\<close> empty and
  \<open>isThinking = true\<close>. Where only white space precedes the tag, this is the trimmed text
  after the tag.
\<close>

theorem parse_step_open_only:
  assumes "sublist think_open s" and "\<not> sublist think_close s"
  shows "(\<exists>a r. first_at think_open s a r) \<and>
    (\<forall>a r. first_at think_open s a r \<longrightarrow>
       parse_step st s = \<lparr>thinking = trim (a @ r), content = [], isThinking = True\<rparr> \<and>
       (list_all is_ws a \<longrightarrow> thinking (parse_step st s) = trim r))"
proof -
  from assms(2) have np: "\<not> contains_pair s" using contains_pair_sublist_close by blast
  have "parse_step st s = \<lparr>thinking = trim (a @ r), content = [], isThinking = True\<rparr> \<and>
       (list_all is_ws a \<longrightarrow> thinking (parse_step st s) = trim r)"
    if f: "first_at think_open s a r" for a r
  proof -
    from f have "replace_first s think_open = a @ r"
      by (simp add: replace_first_lazy_until first_at_lazy_until)
    with np assms(1) show ?thesis by (simp add: parse_step_no_pair trim_ws_prefix)
  qed
  with sublist_first_at [OF assms(1)] show ?thesis by blast
qed

theorem parse_step_open_only_witness:
  "sublist think_open (js ''Hi <think>still working'') \<and>
   \<not> sublist think_close (js ''Hi <think>still working'') \<and>
   first_at think_open (js ''Hi <think>still working'') (js ''Hi '') (js ''still working'') \<and>
   parse_step initial_state (js ''Hi <think>still working'') =
     \<lparr>thinking = js ''Hi still working'', content = [], isThinking = True\<rparr>"
proof -
  let ?s = "js ''Hi <think>still working''"
  have h1: "sublist think_open ?s" by code_simp
  have h2: "\<not> sublist think_close ?s" by code_simp
  have f: "first_at think_open ?s (js ''Hi '') (js ''still working'')" by code_simp
  have t: "trim (js ''Hi '' @ js ''still working'') = js ''Hi still working''" by code_simp
  from parse_step_open_only [OF h1 h2, of initial_state] f
  have "parse_step initial_state ?s =
     \<lparr>thinking = trim (js ''Hi '' @ js ''still working''), content = [], isThinking = True\<rparr>"
    by blast
  then have "parse_step initial_state ?s =
     \<lparr>thinking = js ''Hi still working'', content = [], isThinking = True\<rparr>"
    by (simp only: t)
  with h1 h2 f show ?thesis by blast
qed

text \<open>
  C2 as stated fails: text in front of the opening tag is kept in \<open>thinking\<close>.
\<close>

theorem parse_step_open_only_counterexample:
  "sublist think_open (js ''Hi <think>abc'') \<and>
   \<not> sublist think_close (js ''Hi <think>abc'') \<and>
   first_at think_open (js ''Hi <think>abc'') (js ''Hi '') (js ''abc'') \<and>
   thinking (parse_step initial_state (js ''Hi <think>abc'')) = js ''Hi abc'' \<and>
   thinking (parse_step initial_state (js ''Hi <think>abc'')) \<noteq> trim (js ''abc'')"
proof -
  let ?s = "js ''Hi <think>abc''"
  have 1: "sublist think_open ?s" by code_simp
  have 2: "\<not> sublist think_close ?s" by code_simp
  have 3: "first_at think_open ?s (js ''Hi '') (js ''abc'')" by code_simp
  have 4: "thinking (parse_step initial_state ?s) = js ''Hi abc''" by code_simp
  have 5: "trim (js ''abc'') = js ''abc''" by code_simp
  have 6: "js ''Hi abc'' \<noteq> js ''abc''" by (simp add: js_def)
  from 4 5 6 have "thinking (parse_step initial_state ?s) \<noteq> trim (js ''abc'')" by simp
  with 1 2 3 4 show ?thesis by blast
qed

text \<open>
  C8: once the buffer holds a pair, appending text changes neither \<open>thinking\<close> nor
  \<open>isThinking = false\<close>, whatever the state before; the appended text goes to the end of
  what \<open>content\<close> is trimmed from.
\<close>

theorem both_tags_stable:
  assumes "contains_pair b"
  shows "thinking (parse_step st' (b @ t)) = thinking (parse_step st b) \<and>
    \<not> isThinking (parse_step st b) \<and> \<not> isThinking (parse_step st' (b @ t)) \<and>
    (\<forall>a g r. first_pair b a g r \<longrightarrow>
       content (parse_step st b) = trim (a @ r) \<and>
       content (parse_step st' (b @ t)) = trim (a @ r @ t))"
proof -
  from assms obtain a g r where f: "first_pair b a g r"
    by (auto simp: contains_pair_first_pair)
  have *: "parse_step st b = \<lparr>thinking = trim g', content = trim (a' @ r'), isThinking = False\<rparr> \<and>
      parse_step st' (b @ t) = \<lparr>thinking = trim g', content = trim (a' @ r' @ t), isThinking = False\<rparr>"
    if "first_pair b a' g' r'" for a' g' r'
    using parse_step_first_pair [OF that] parse_step_first_pair [OF first_pair_append [OF that]]
    by simp
  from * [OF f] have "thinking (parse_step st' (b @ t)) = thinking (parse_step st b)"
    "\<not> isThinking (parse_step st b)" "\<not> isThinking (parse_step st' (b @ t))" by simp_all
  moreover from * have "\<forall>a g r. first_pair b a g r \<longrightarrow>
       content (parse_step st b) = trim (a @ r) \<and>
       content (parse_step st' (b @ t)) = trim (a @ r @ t)" by simp
  ultimately show ?thesis by blast
qed

theorem both_tags_stable_witness:
  "contains_pair (js ''<think>plan</think>Hel'') \<and>
   first_pair (js ''<think>plan</think>Hel'') [] (js ''plan'') (js ''Hel'') \<and>
   parse_step initial_state (js ''<think>plan</think>Hel'') =
     \<lparr>thinking = js ''plan'', content = js ''Hel'', isThinking = False\<rparr> \<and>
   parse_step \<lparr>thinking = js ''plan'', content = js ''Hel'', isThinking = False\<rparr>
       (js ''<think>plan</think>Hel'' @ js ''lo</think>!'') =
     \<lparr>thinking = js ''plan'', content = js ''Hello</think>!'', isThinking = False\<rparr>"
proof -
  let ?b = "js ''<think>plan</think>Hel''"
  let ?st = "\<lparr>thinking = js ''plan'', content = js ''Hel'', isThinking = False\<rparr>"
  have "?b = [] @ think_open @ js ''plan'' @ think_close @ js ''Hel''"
    by (simp add: js_def think_open_def think_close_def)
  then have c: "contains_pair ?b" unfolding contains_pair_def by blast
  have f: "first_pair ?b [] (js ''plan'') (js ''Hel'')" by code_simp
  have e: "parse_step initial_state ?b = ?st" by code_simp
  have t: "trim ([] @ js ''Hel'' @ js ''lo</think>!'') = js ''Hello</think>!''" by code_simp
  let ?n = "parse_step ?st (?b @ js ''lo</think>!'')"
  note s = both_tags_stable [OF c, of ?st "js ''lo</think>!''" initial_state]
  from s have "thinking ?n = thinking (parse_step initial_state ?b)" by blast
  then have 1: "thinking ?n = js ''plan''" by (simp add: e)
  from s have 2: "\<not> isThinking ?n" by blast
  from s f have "content ?n = trim ([] @ js ''Hel'' @ js ''lo</think>!'')" by blast
  then have 3: "content ?n = js ''Hello</think>!''" by (simp only: t)
  from 1 2 3 have "?n = \<lparr>thinking = js ''plan'', content = js ''Hello</think>!'', isThinking = False\<rparr>"
    by (cases ?n) simp
  with c f e show ?thesis by blast
qed

text \<open>
  C10: on a buffer without a pair \<open>parseMessage\<close> returns no \<open>thinking\<close> field and the
  whole trimmed buffer as \<open>content\<close>: no thinking panel is drawn, and an opening tag of the
  buffer is still there in \<open>content\<close>. Once \<open>onFinish\<close> has run, the message is drawn
  from this result and not from the streaming state.
\<close>

theorem parseMessage_no_pair:
  assumes "\<not> contains_pair s"
  shows "parseMessage s = \<lparr>p_thinking = None, p_content = trim s\<rparr> \<and>
    \<not> thinking_panel_shown (parseMessage s) \<and>
    (sublist think_open s \<longrightarrow> sublist think_open (p_content (parseMessage s))) \<and>
    \<not> streaming_view (onFinish st) message isLastMessage"
proof -
  from assms have "regex_exec s = None" using contains_pair_regex_exec [of s] by blast
  then have "parseMessage s = \<lparr>p_thinking = None, p_content = trim s\<rparr>"
    by (simp add: parseMessage_def)
  then show ?thesis
    by (simp add: thinking_panel_shown_def sublist_trim tag_ends streaming_view_def onFinish_def)
qed

theorem parseMessage_no_pair_witness:
  "\<not> contains_pair (js ''<think>still working '') \<and>
   sublist think_open (js ''<think>still working '') \<and>
   parseMessage (js ''<think>still working '') =
     \<lparr>p_thinking = None, p_content = js ''<think>still working''\<rparr> \<and>
   \<not> thinking_panel_shown (parseMessage (js ''<think>still working '')) \<and>
   sublist think_open (p_content (parseMessage (js ''<think>still working '')))"
proof -
  let ?s = "js ''<think>still working ''"
  have "regex_exec ?s = None" by code_simp
  then have h: "\<not> contains_pair ?s" by (simp add: contains_pair_regex_exec)
  have o: "sublist think_open ?s" by code_simp
  have t: "trim ?s = js ''<think>still working''" by code_simp
  note n = parseMessage_no_pair [OF h]
  from n have "parseMessage ?s = \<lparr>p_thinking = None, p_content = trim ?s\<rparr>" by blast
  then have 1: "parseMessage ?s = \<lparr>p_thinking = None, p_content = js ''<think>still working''\<rparr>"
    by (simp only: t)
  from n have 2: "\<not> thinking_panel_shown (parseMessage ?s)" by blast
  from n o have 3: "sublist think_open (p_content (parseMessage ?s))" by blast
  from h o 1 2 3 show ?thesis by blast
qed

subsection \<open>Runs of the parse step\<close>

lemma parse_step_pair_not_thinking: "contains_pair b \<Longrightarrow> \<not> isThinking (parse_step st b)"
  using parse_step_first_pair by (auto simp: contains_pair_first_pair)

lemma parse_step_keeps_thinking:
  "\<not> contains_pair b \<Longrightarrow> isThinking st \<Longrightarrow> isThinking (parse_step st b)"
  by (simp add: parse_step_no_pair)

lemma run_steps_length [simp]: "length (run_steps st bufs) = length bufs"
  by (induction bufs arbitrary: st) simp_all

lemma run_steps_nth:
  "j < length bufs \<Longrightarrow> \<exists>st'. run_steps st bufs ! j = parse_step st' (bufs ! j)"
proof (induction bufs arbitrary: st j)
  case Nil
  then show ?case by simp
next
  case (Cons b bufs)
  then show ?case by (cases j) auto
qed

lemma run_steps_latched:
  assumes "isThinking st" and "i < length bufs" and "\<not> isThinking (run_steps st bufs ! i)"
  shows "\<exists>k\<le>i. contains_pair (bufs ! k)"
  using assms
proof (induction bufs arbitrary: st i)
  case Nil
  then show ?case by simp
next
  case (Cons b bufs)
  show ?case
  proof (cases "contains_pair b")
    case True
    then show ?thesis by (intro exI [of _ 0]) simp
  next
    case False
    from False Cons.prems(1) have th: "isThinking (parse_step st b)"
      by (rule parse_step_keeps_thinking)
    show ?thesis
    proof (cases i)
      case 0
      with Cons.prems(3) th show ?thesis by simp
    next
      case (Suc i')
      with Cons.prems have "i' < length bufs"
        "\<not> isThinking (run_steps (parse_step st b) bufs ! i')" by simp_all
      from Cons.IH [OF th this] obtain k where "k \<le> i'" "contains_pair (bufs ! k)" by blast
      with Suc show ?thesis by (intro exI [of _ "Suc k"]) simp
    qed
  qed
qed

text \<open>
  C6 (as amended): on the cumulative buffers of one message, when the first evaluation
  starts from a state with \<open>isThinking\<close> true (as after the reset), an evaluation that has
  produced \<open>isThinking = false\<close> is never followed by one that produces \<open>true\<close>.
\<close>

theorem isThinking_latch:
  assumes "isThinking st" and "cumulative bufs" and "i < j" and "j < length bufs"
    and "\<not> isThinking (run_steps st bufs ! i)"
  shows "\<not> isThinking (run_steps st bufs ! j)"
proof -
  from assms have "i < length bufs" by simp
  from run_steps_latched [OF assms(1) this assms(5)]
  obtain k where k: "k \<le> i" "contains_pair (bufs ! k)" by blast
  with assms(3) have "k < j" by simp
  with assms(2,4) have "prefix (bufs ! k) (bufs ! j)" by (simp add: cumulative_def)
  with k(2) have "contains_pair (bufs ! j)" by (rule contains_pair_prefix)
  moreover from run_steps_nth [OF assms(4)]
  obtain st' where "run_steps st bufs ! j = parse_step st' (bufs ! j)" by blast
  ultimately show ?thesis by (simp add: parse_step_pair_not_thinking)
qed

theorem isThinking_latch_witness:
  "isThinking initial_state \<and>
   cumulative [js ''<think>a'', js ''<think>a</think>'', js ''<think>a</think>b<think>''] \<and>
   (1::nat) < 2 \<and>
   (2::nat) < length [js ''<think>a'', js ''<think>a</think>'', js ''<think>a</think>b<think>''] \<and>
   map isThinking (run_steps initial_state
      [js ''<think>a'', js ''<think>a</think>'', js ''<think>a</think>b<think>'']) =
     [True, False, False]"
proof -
  let ?bufs = "[js ''<think>a'', js ''<think>a</think>'', js ''<think>a</think>b<think>'']"
  have h1: "isThinking initial_state" by (simp add: initial_state_def)
  have h2: "cumulative ?bufs" by code_simp
  have h3: "(1::nat) < 2" by simp
  have h4: "(2::nat) < length ?bufs" by simp
  have e0: "isThinking (run_steps initial_state ?bufs ! 0)" by code_simp
  have e1: "\<not> isThinking (run_steps initial_state ?bufs ! 1)" by code_simp
  have e2: "\<not> isThinking (run_steps initial_state ?bufs ! 2)"
    by (rule isThinking_latch [OF h1 h2 h3 h4 e1])
  have "map isThinking (run_steps initial_state ?bufs) = [True, False, False]"
  proof (rule nth_equalityI)
    show "length (map isThinking (run_steps initial_state ?bufs)) = length [True, False, False]"
      by simp
  next
    fix n assume "n < length (map isThinking (run_steps initial_state ?bufs))"
    then have "n = 0 \<or> n = 1 \<or> n = 2" by auto
    with e0 e1 e2 show "map isThinking (run_steps initial_state ?bufs) ! n = [True, False, False] ! n"
      by auto
  qed
  with h1 h2 h3 h4 show ?thesis by blast
qed

text \<open>
  C6 as stated fails when the message starts from a state left in content mode: a stream
  that ended without \<open>onFinish\<close> after its closing tag leaves \<open>isThinking\<close> false, the
  next message's buffer \<open>x\<close> keeps it false, and the buffer \<open>x<think>y\<close> sets it to true.
\<close>

theorem isThinking_latch_counterexample:
  "run_events
     [MessagesChanged [\<lparr>m_role = User, m_content = js ''Hi''\<rparr>,
                       \<lparr>m_role = Assistant, m_content = js ''<think>a</think>b''\<rparr>],
      MessagesChanged [\<lparr>m_role = User, m_content = js ''Hi''\<rparr>,
                       \<lparr>m_role = Assistant, m_content = js ''<think>a</think>b''\<rparr>,
                       \<lparr>m_role = User, m_content = js ''again''\<rparr>]] =
     \<lparr>thinking = js ''a'', content = js ''b'', isThinking = False\<rparr> \<and>
   cumulative [js ''x'', js ''x<think>y''] \<and>
   map isThinking
     (run_steps \<lparr>thinking = js ''a'', content = js ''b'', isThinking = False\<rparr>
        [js ''x'', js ''x<think>y'']) = [False, True]"
proof -
  have 1: "run_events
     [MessagesChanged [\<lparr>m_role = User, m_content = js ''Hi''\<rparr>,
                       \<lparr>m_role = Assistant, m_content = js ''<think>a</think>b''\<rparr>],
      MessagesChanged [\<lparr>m_role = User, m_content = js ''Hi''\<rparr>,
                       \<lparr>m_role = Assistant, m_content = js ''<think>a</think>b''\<rparr>,
                       \<lparr>m_role = User, m_content = js ''again''\<rparr>]] =
     \<lparr>thinking = js ''a'', content = js ''b'', isThinking = False\<rparr>" by code_simp
  have 2: "cumulative [js ''x'', js ''x<think>y'']" by code_simp
  have 3: "map isThinking
     (run_steps \<lparr>thinking = js ''a'', content = js ''b'', isThinking = False\<rparr>
        [js ''x'', js ''x<think>y'']) = [False, True]" by code_simp
  from 1 2 3 show ?thesis by blast
qed

subsection \<open>Several regions\<close>

lemma first_at_not_inside:
  assumes "first_at pat s b r" and "pat \<noteq> []"
  shows "\<not> sublist pat b"
proof
  assume "sublist pat b"
  then obtain p q where b: "b = p @ pat @ q" by (auto simp: sublist_def)
  with assms(2) have "length p < length b" by (cases pat) simp_all
  from first_at_no_earlier [OF assms(1) this] first_at_eq [OF assms(1)] b
  show False by simp
qed

text \<open>
  C5: in a buffer with two complete regions the first pair ends at the first closing tag
  (the text between its tags holds no closing tag), \<open>thinking\<close> is the trimmed text of
  that first pair alone, and the second region, tags included, is still part of
  \<open>content\<close>; \<open>parseMessage\<close> does the same.
\<close>

theorem first_region_only:
  assumes "s = x @ think_open @ g1 @ think_close @ y @ think_open @ g2 @ think_close @ z"
  shows "\<exists>a g r. first_pair s a g r \<and> \<not> sublist think_close g \<and>
    thinking (parse_step st s) = trim g \<and>
    sublist (think_open @ g2 @ think_close) (content (parse_step st s)) \<and>
    \<not> isThinking (parse_step st s) \<and>
    p_thinking (parseMessage s) = Some (trim g) \<and>
    sublist (think_open @ g2 @ think_close) (p_content (parseMessage s))"
proof -
  let ?region = "think_open @ g2 @ think_close"
  let ?tail = "y @ think_open @ g2 @ think_close @ z"
  have "sublist think_open s" unfolding assms by simp
  then obtain a rest where fo: "first_at think_open s a rest" using sublist_first_at by blast
  from first_at_rest [OF fo assms] obtain u where rest: "rest = (u @ g1) @ think_close @ ?tail"
    by auto
  then have "sublist think_close rest" by (simp only: sublist_appendI)
  then obtain g r where fc: "first_at think_close rest g r" using sublist_first_at by blast
  from first_at_rest [OF fc rest] obtain w where r: "r = w @ ?tail" by blast
  have fp: "first_pair s a g r" using fo fc first_at_eq [OF fc] by (simp add: first_pair_def)
  have ng: "\<not> sublist think_close g" by (rule first_at_not_inside [OF fc tag_ends(4)])
  have "a @ r = (a @ w @ y) @ ?region @ z" using r by simp
  then have "sublist ?region (a @ r)" by (simp only: sublist_appendI)
  moreover have "?region \<noteq> []" "\<not> is_ws (hd ?region)" "\<not> is_ws (last ?region)"
    using tag_ends by simp_all
  ultimately have tr: "sublist ?region (trim (a @ r))" by (rule sublist_trim)
  from fp ng tr parse_step_first_pair [OF fp, of st] parseMessage_first_pair [OF fp]
  show ?thesis by (intro exI [of _ a] exI [of _ g] exI [of _ r]) simp
qed

theorem first_region_only_witness:
  "parse_step initial_state (js ''<think>a</think>b<think>c</think>d'') =
     \<lparr>thinking = js ''a'', content = js ''b<think>c</think>d'', isThinking = False\<rparr> \<and>
   (\<exists>a g r. first_pair (js ''<think>a</think>b<think>c</think>d'') a g r \<and>
      \<not> sublist think_close g \<and>
      thinking (parse_step initial_state (js ''<think>a</think>b<think>c</think>d'')) = trim g \<and>
      sublist (think_open @ js ''c'' @ think_close)
        (content (parse_step initial_state (js ''<think>a</think>b<think>c</think>d''))))"
proof -
  let ?s = "js ''<think>a</think>b<think>c</think>d''"
  have h: "?s = [] @ think_open @ js ''a'' @ think_close @ js ''b'' @ think_open @ js ''c'' @
      think_close @ js ''d''"
    by (simp add: js_def think_open_def think_close_def)
  have e: "parse_step initial_state ?s =
     \<lparr>thinking = js ''a'', content = js ''b<think>c</think>d'', isThinking = False\<rparr>"
    by code_simp
  from first_region_only [OF h, of initial_state] e show ?thesis by blast
qed

subsection \<open>Resetting the state\<close>

lemma handle_no_assistant_update: "no_assistant_update e \<Longrightarrow> handle st e = st"
  by (cases e) (auto simp: streaming_effect_def Let_def)

lemma foldl_no_assistant_update:
  "list_all no_assistant_update evs \<Longrightarrow> foldl handle st evs = st"
  by (induction evs arbitrary: st) (simp_all add: handle_no_assistant_update)

text \<open>
  C9 (as amended): the streaming state is the default state at the start, \<open>onFinish\<close> puts
  it back to the default state whatever it was, and changes of \<open>messages\<close> whose last
  message is not the assistant's leave it alone. So the first message, and each message
  that follows a finished stream, is parsed from the default state. Nothing resets the
  state when an assistant message begins.
\<close>

theorem reset_on_finish:
  assumes "list_all no_assistant_update quiet"
  shows "onFinish st = initial_state \<and>
    run_events quiet = initial_state \<and>
    run_events (evs @ Finished # quiet) = initial_state \<and>
    run_events (evs @ Finished # quiet @ [MessagesChanged (ms @ [\<lparr>m_role = Assistant, m_content = buf\<rparr>])]) =
      parse_step initial_state buf"
proof -
  have 1: "onFinish st = initial_state" for st by (simp add: onFinish_def initial_state_def)
  have 2: "run_events quiet = initial_state"
    using assms by (simp add: run_events_def foldl_no_assistant_update)
  have 3: "run_events (evs @ Finished # quiet) = initial_state"
    using assms by (simp add: run_events_def foldl_no_assistant_update 1)
  have "run_events ((evs @ Finished # quiet) @ [MessagesChanged (ms @ [\<lparr>m_role = Assistant, m_content = buf\<rparr>])]) =
      parse_step initial_state buf"
    using 3 by (simp add: run_events_def streaming_effect_def del: append_assoc)
  with 1 2 3 show ?thesis by simp
qed

theorem reset_on_finish_witness:
  "list_all no_assistant_update [MessagesChanged [\<lparr>m_role = User, m_content = js ''again''\<rparr>]] \<and>
   run_events
     [MessagesChanged [\<lparr>m_role = User, m_content = js ''Hi''\<rparr>,
                       \<lparr>m_role = Assistant, m_content = js ''<think>a</think>b''\<rparr>],
      Finished,
      MessagesChanged [\<lparr>m_role = User, m_content = js ''again''\<rparr>]] = initial_state"
proof -
  have h: "list_all no_assistant_update [MessagesChanged [\<lparr>m_role = User, m_content = js ''again''\<rparr>]]"
    by simp
  from reset_on_finish [OF h, of initial_state
      "[MessagesChanged [\<lparr>m_role = User, m_content = js ''Hi''\<rparr>,
                       \<lparr>m_role = Assistant, m_content = js ''<think>a</think>b''\<rparr>]]"]
  have "run_events
     ([MessagesChanged [\<lparr>m_role = User, m_content = js ''Hi''\<rparr>,
                       \<lparr>m_role = Assistant, m_content = js ''<think>a</think>b''\<rparr>]] @
      Finished #
      [MessagesChanged [\<lparr>m_role = User, m_content = js ''again''\<rparr>]]) = initial_state"
    by blast
  with h show ?thesis by simp
qed

text \<open>
  C9 as stated fails: after a stream that ended without \<open>onFinish\<close>, the next assistant
  message begins in the state the earlier one left, and its first buffer is parsed from
  that state, not from the default one.
\<close>

theorem reset_on_new_message_counterexample:
  "run_events
     [MessagesChanged [\<lparr>m_role = User, m_content = js ''Hi''\<rparr>,
                       \<lparr>m_role = Assistant, m_content = js ''<think>a</think>b''\<rparr>],
      MessagesChanged [\<lparr>m_role = User, m_content = js ''Hi''\<rparr>,
                       \<lparr>m_role = Assistant, m_content = js ''<think>a</think>b''\<rparr>,
                       \<lparr>m_role = User, m_content = js ''again''\<rparr>]] \<noteq> initial_state \<and>
   run_events
     [MessagesChanged [\<lparr>m_role = User, m_content = js ''Hi''\<rparr>,
                       \<lparr>m_role = Assistant, m_content = js ''<think>a</think>b''\<rparr>],
      MessagesChanged [\<lparr>m_role = User, m_content = js ''Hi''\<rparr>,
                       \<lparr>m_role = Assistant, m_content = js ''<think>a</think>b''\<rparr>,
                       \<lparr>m_role = User, m_content = js ''again''\<rparr>],
      MessagesChanged [\<lparr>m_role = User, m_content = js ''Hi''\<rparr>,
                       \<lparr>m_role = Assistant, m_content = js ''<think>a</think>b''\<rparr>,
                       \<lparr>m_role = User, m_content = js ''again''\<rparr>,
                       \<lparr>m_role = Assistant, m_content = js ''x''\<rparr>]] =
     \<lparr>thinking = js ''a'', content = js ''x'', isThinking = False\<rparr> \<and>
   parse_step initial_state (js ''x'') = \<lparr>thinking = js ''x'', content = [], isThinking = True\<rparr>"
proof -
  have 1: "run_events
     [MessagesChanged [\<lparr>m_role = User, m_content = js ''Hi''\<rparr>,
                       \<lparr>m_role = Assistant, m_content = js ''<think>a</think>b''\<rparr>],
      MessagesChanged [\<lparr>m_role = User, m_content = js ''Hi''\<rparr>,
                       \<lparr>m_role = Assistant, m_content = js ''<think>a</think>b''\<rparr>,
                       \<lparr>m_role = User, m_content = js ''again''\<rparr>]] =
     \<lparr>thinking = js ''a'', content = js ''b'', isThinking = False\<rparr>" by code_simp
  have 2: "run_events
     [MessagesChanged [\<lparr>m_role = User, m_content = js ''Hi''\<rparr>,
                       \<lparr>m_role = Assistant, m_content = js ''<think>a</think>b''\<rparr>],
      MessagesChanged [\<lparr>m_role = User, m_content = js ''Hi''\<rparr>,
                       \<lparr>m_role = Assistant, m_content = js ''<think>a</think>b''\<rparr>,
                       \<lparr>m_role = User, m_content = js ''again''\<rparr>],
      MessagesChanged [\<lparr>m_role = User, m_content = js ''Hi''\<rparr>,
                       \<lparr>m_role = Assistant, m_content = js ''<think>a</think>b''\<rparr>,
                       \<lparr>m_role = User, m_content = js ''again''\<rparr>,
                       \<lparr>m_role = Assistant, m_content = js ''x''\<rparr>]] =
     \<lparr>thinking = js ''a'', content = js ''x'', isThinking = False\<rparr>" by code_simp
  have 3: "parse_step initial_state (js ''x'') =
     \<lparr>thinking = js ''x'', content = [], isThinking = True\<rparr>" by code_simp
  have "\<lparr>thinking = js ''a'', content = js ''b'', isThinking = False\<rparr> \<noteq> initial_state"
    by (simp add: initial_state_def)
  with 1 2 3 show ?thesis by simp
qed

end
